theory Spec2Isabelle
  imports Complex_Main "HOL-Library.Sublist"
begin

section \<open>Text, characters and the character classes of \<open>re\<close>\<close>

text \<open>
  A Python \<open>str\<close> is a sequence of code points. The model uses \<open>string\<close>, whose
  characters are the code points below 256 (Latin-1); \<open>of_char\<close> gives the code point.
  On these code points the classes \<open>\<bsol>d\<close>, \<open>\<bsol>s\<close> and \<open>\<bsol>w\<close> of \<open>re\<close> (which are
  Unicode aware for \<open>str\<close> patterns) are the following sets.
\<close>

definition LF :: char where
  "LF = CHR 0x0A"

definition CR :: char where
  "CR = CHR 0x0D"

definition code :: "char \<Rightarrow> nat" where
  "code c = of_char c"

definition in_range :: "nat \<Rightarrow> nat \<Rightarrow> char \<Rightarrow> bool" where
  "in_range lo hi c = (lo \<le> code c \<and> code c \<le> hi)"

text \<open>\<open>[a-f0-9]\<close>\<close>

definition is_hex :: "char \<Rightarrow> bool" where
  "is_hex c = (in_range 97 102 c \<or> in_range 48 57 c)"

text \<open>\<open>\<bsol>d\<close>: the decimal digits; below 256 these are \<open>0\<close> to \<open>9\<close>.\<close>

definition is_digit :: "char \<Rightarrow> bool" where
  "is_digit c = in_range 48 57 c"

text \<open>\<open>\<bsol>s\<close>: what \<open>str.isspace\<close> accepts.\<close>

definition is_space :: "char \<Rightarrow> bool" where
  "is_space c = (in_range 9 13 c \<or> in_range 28 32 c \<or> code c = 133 \<or> code c = 160)"

text \<open>\<open>[A-Za-z0-9_]\<close>\<close>

definition is_ascii_word :: "char \<Rightarrow> bool" where
  "is_ascii_word c =
     (in_range 48 57 c \<or> in_range 65 90 c \<or> code c = 95 \<or> in_range 97 122 c)"

text \<open>\<open>\<bsol>w\<close>: what \<open>str.isalnum\<close> accepts, and the underscore.\<close>

definition is_word :: "char \<Rightarrow> bool" where
  "is_word c =
     (is_ascii_word c \<or> code c = 170 \<or> in_range 178 179 c \<or> code c = 181 \<or>
      in_range 185 186 c \<or> in_range 188 190 c \<or> in_range 192 214 c \<or>
      in_range 216 246 c \<or> in_range 248 255 c)"

definition is_ascii :: "char \<Rightarrow> bool" where
  "is_ascii c = (code c < 128)"

text \<open>\<open>s.startswith(p)\<close>\<close>

definition startswith :: "string \<Rightarrow> string \<Rightarrow> bool" where
  "startswith s p = (take (length p) s = p)"

text \<open>\<open>content.split('\<bsol>n')\<close>: the pieces between line feeds; never an empty list.\<close>

fun split_acc :: "string \<Rightarrow> string \<Rightarrow> string list" where
  "split_acc cur [] = [cur]"
| "split_acc cur (c # cs) =
     (if c = LF then cur # split_acc [] cs else split_acc (cur @ [c]) cs)"

definition split_lines :: "string \<Rightarrow> string list" where
  "split_lines content = split_acc [] content"

text \<open>\<open>'\<bsol>n'.join(lines)\<close>\<close>

fun join_lines :: "string list \<Rightarrow> string" where
  "join_lines [] = []"
| "join_lines [l] = l"
| "join_lines (l # ls) = l @ LF # join_lines ls"

text \<open>
  Reading a file in text mode translates the line ends \<open>\<bsol>r\<bsol>n\<close> and \<open>\<bsol>r\<close> to \<open>\<bsol>n\<close>.
\<close>

fun universal_newlines :: "string \<Rightarrow> string" where
  "universal_newlines [] = []"
| "universal_newlines [c] = (if c = CR then [LF] else [c])"
| "universal_newlines (c # d # cs) =
     (if c = CR \<and> d = LF then LF # universal_newlines cs
      else if c = CR then LF # universal_newlines (d # cs)
      else c # universal_newlines (d # cs))"

section \<open>scripts/dedupe-conversation-log.py\<close>

subsection \<open>The header pattern\<close>

text \<open>\<open>\<bsol>d{4}-\<bsol>d{2}-\<bsol>d{2}\<close> against a whole string.\<close>

fun match_date :: "string \<Rightarrow> bool" where
  "match_date [y1, y2, y3, y4, s1, m1, m2, s2, d1, d2] =
     (is_digit y1 \<and> is_digit y2 \<and> is_digit y3 \<and> is_digit y4 \<and> s1 = CHR ''-'' \<and>
      is_digit m1 \<and> is_digit m2 \<and> s2 = CHR ''-'' \<and> is_digit d1 \<and> is_digit d2)"
| "match_date _ = False"

text \<open>
  \<open>re.match(r'^## Chat ([a-f0-9]+) - (\<bsol>d{4}-\<bsol>d{2}-\<bsol>d{2}) - (.+)$', line)\<close>, giving the three
  groups. The identifier is the longest run of \<open>[a-f0-9]\<close>: a shorter one would have to be
  followed by a space where a hexadecimal character stands. \<open>.\<close> takes any character but
  the line feed, and \<open>$\<close> holds at the end of the string or before a line feed that ends it.
\<close>

definition chat_match :: "string \<Rightarrow> (string \<times> string \<times> string) option" where
  "chat_match line =
     (if startswith line ''## Chat '' then
        (let r0 = drop 8 line;
             conv_id = takeWhile is_hex r0;
             r1 = dropWhile is_hex r0
         in if conv_id \<noteq> [] \<and> startswith r1 '' - '' then
              (let r2 = drop 3 r1;
                   date = take 10 r2;
                   r3 = drop 10 r2
               in if match_date date \<and> startswith r3 '' - '' then
                    (let r4 = drop 3 r3;
                         title = takeWhile (\<lambda>c. c \<noteq> LF) r4;
                         r5 = dropWhile (\<lambda>c. c \<noteq> LF) r4
                     in if title \<noteq> [] \<and> (r5 = [] \<or> r5 = [LF])
                        then Some (conv_id, date, title) else None)
                  else None)
            else None)
      else None)"

text \<open>\<open>f"{conv_id}-{date}"\<close>\<close>

definition conversation_key :: "string \<Rightarrow> string \<Rightarrow> string" where
  "conversation_key conv_id date = conv_id @ ''-'' @ date"

subsection \<open>The scan over the lines\<close>

record scan_state =
  seen_conversations :: "string set"
  filtered_lines :: "string list"
  current_conversation :: "string option"
  skip_until_next :: bool

definition initial_state :: scan_state where
  "initial_state =
     \<lparr>seen_conversations = {}, filtered_lines = [], current_conversation = None,
      skip_until_next = False\<rparr>"

text \<open>The last statement of the loop body: \<open>if not skip_until_next: filtered_lines.append(line)\<close>.\<close>

definition append_unless_skipping :: "scan_state \<Rightarrow> string \<Rightarrow> scan_state" where
  "append_unless_skipping st line =
     (if skip_until_next st then st
      else st\<lparr>filtered_lines := filtered_lines st @ [line]\<rparr>)"

text \<open>
  One iteration of \<open>for line in lines\<close>. The branch of a key already seen ends with
  \<open>continue\<close>, so it does not reach the append.
\<close>

definition loop_body :: "scan_state \<Rightarrow> string \<Rightarrow> scan_state" where
  "loop_body st line =
     (case chat_match line of
        Some (conv_id, date, title) \<Rightarrow>
          (let key = conversation_key conv_id date
           in if key \<in> seen_conversations st
              then st\<lparr>skip_until_next := True\<rparr>
              else append_unless_skipping
                     (st\<lparr>seen_conversations := insert key (seen_conversations st),
                         current_conversation := Some key,
                         skip_until_next := False\<rparr>) line)
      | None \<Rightarrow>
          (if skip_until_next st \<and> startswith line ''## ''
           then append_unless_skipping (st\<lparr>skip_until_next := False\<rparr>) line
           else append_unless_skipping st line))"

definition scan :: "string list \<Rightarrow> scan_state" where
  "scan lines = foldl loop_body initial_state lines"

text \<open>The transform on lines, and on the text of the file.\<close>

definition dedupe_lines :: "string list \<Rightarrow> string list" where
  "dedupe_lines lines = filtered_lines (scan lines)"

definition dedupe_content :: "string \<Rightarrow> string" where
  "dedupe_content content = join_lines (dedupe_lines (split_lines content))"

subsection \<open>The run: read, scan, back up, overwrite, report\<close>

text \<open>
  The file system maps a path to the text of the file there. The calls that can raise
  (\<open>read_text\<close>, \<open>rename\<close>, \<open>write_text\<close>) raise when the environment says so; a failed
  \<open>rename\<close> changes nothing, a failed \<open>write_text\<close> leaves at the path what the
  environment says it leaves. The progress lines printed by the loop are not modelled, the
  statistics printed at the end are.
\<close>

type_synonym path = string

type_synonym file_system = "path \<rightharpoonup> string"

datatype exception = OSError string | ZeroDivisionError

datatype fs_op = Rename path path | Write_text path string

record environment =
  read_fails :: bool
  rename_fails :: bool
  write_fails :: bool
  write_leftover :: "string option"

datatype outcome = Not_found | Raised exception | Returned nat

record statistics =
  original_lines :: nat
  final_lines :: nat
  removed_lines :: int
  conversations_found :: nat

record run =
  fs_after :: file_system
  performed :: "fs_op list"
  outcome :: outcome
  reported :: "statistics option"

definition log_file :: path where
  "log_file = ''.ai/conversation-log.md''"

text \<open>\<open>log_file.with_suffix('.md.backup')\<close>: the suffix \<open>.md\<close> is replaced.\<close>

definition backup_file :: path where
  "backup_file = ''.ai/conversation-log.md.backup''"

definition read_text :: "environment \<Rightarrow> string \<Rightarrow> exception + string" where
  "read_text env raw =
     (if read_fails env then Inl (OSError ''read_text'') else Inr (universal_newlines raw))"

definition rename :: "environment \<Rightarrow> path \<Rightarrow> path \<Rightarrow> file_system \<Rightarrow> exception + file_system" where
  "rename env src dst fs =
     (if rename_fails env then Inl (OSError ''rename'')
      else Inr (fs(dst := fs src, src := None)))"

definition write_text ::
  "environment \<Rightarrow> path \<Rightarrow> string \<Rightarrow> file_system \<Rightarrow> exception option \<times> file_system" where
  "write_text env p data fs =
     (if write_fails env then (Some (OSError ''write_text''), fs(p := write_leftover env))
      else (None, fs(p \<mapsto> data)))"

definition dedupe_conversation_log :: "environment \<Rightarrow> file_system \<Rightarrow> run" where
  "dedupe_conversation_log env fs =
     (case fs log_file of
        None \<Rightarrow> \<lparr>fs_after = fs, performed = [], outcome = Not_found, reported = None\<rparr>
      | Some raw \<Rightarrow>
          (case read_text env raw of
             Inl e \<Rightarrow> \<lparr>fs_after = fs, performed = [], outcome = Raised e, reported = None\<rparr>
           | Inr content \<Rightarrow>
               (let lines = split_lines content;
                    st = scan lines;
                    dedupe_content = join_lines (filtered_lines st)
                in case rename env log_file backup_file fs of
                     Inl e \<Rightarrow>
                       \<lparr>fs_after = fs, performed = [Rename log_file backup_file],
                        outcome = Raised e, reported = None\<rparr>
                   | Inr fs1 \<Rightarrow>
                       (case write_text env log_file dedupe_content fs1 of
                          (Some e, fs2) \<Rightarrow>
                            \<lparr>fs_after = fs2,
                             performed = [Rename log_file backup_file,
                                          Write_text log_file dedupe_content],
                             outcome = Raised e, reported = None\<rparr>
                        | (None, fs2) \<Rightarrow>
                            \<lparr>fs_after = fs2,
                             performed = [Rename log_file backup_file,
                                          Write_text log_file dedupe_content],
                             outcome = Returned (card (seen_conversations st)),
                             reported = Some
                               \<lparr>original_lines = length lines,
                                final_lines = length (filtered_lines st),
                                removed_lines =
                                  int (length lines) - int (length (filtered_lines st)),
                                conversations_found = card (seen_conversations st)\<rparr>\<rparr>))))"

subsection \<open>Identities, duplicate headers and skip spans\<close>

text \<open>The pair \<open>(id, date)\<close> of a header line, and the key the scan stores for it.\<close>

definition header_identity :: "string \<Rightarrow> (string \<times> string) option" where
  "header_identity line = map_option (\<lambda>(conv_id, date, title). (conv_id, date)) (chat_match line)"

definition header_key :: "string \<Rightarrow> string option" where
  "header_key line =
     map_option (\<lambda>(conv_id, date, title). conversation_key conv_id date) (chat_match line)"

text \<open>Line \<open>j\<close> is a header whose key an earlier header line has.\<close>

definition duplicate_header :: "string list \<Rightarrow> nat \<Rightarrow> bool" where
  "duplicate_header ls j =
     (case header_key (ls ! j) of
        None \<Rightarrow> False
      | Some k \<Rightarrow> list_ex (\<lambda>l. header_key l = Some k) (take j ls))"

text \<open>
  Line \<open>i\<close> lies in a skip span: a duplicate header at or before it, and no line beginning
  with the section marker after that header up to line \<open>i\<close>.
\<close>

definition in_skip_span :: "string list \<Rightarrow> nat \<Rightarrow> bool" where
  "in_skip_span ls i =
     list_ex (\<lambda>j. duplicate_header ls j \<and>
                  list_all (\<lambda>k. \<not> startswith (ls ! k) ''## '') [Suc j..<Suc i]) [0..<Suc i]"

text \<open>
  Line \<open>i\<close> lies in a duplicate entry: a duplicate header at or before it, and no entry
  header after that header up to line \<open>i\<close>.
\<close>

definition in_duplicate_entry :: "string list \<Rightarrow> nat \<Rightarrow> bool" where
  "in_duplicate_entry ls i =
     list_ex (\<lambda>j. duplicate_header ls j \<and>
                  list_all (\<lambda>k. chat_match (ls ! k) = None) [Suc j..<Suc i]) [0..<Suc i]"

text \<open>The lines of \<open>ls\<close> at the positions that satisfy \<open>keep\<close>, in order.\<close>

definition lines_where :: "(nat \<Rightarrow> bool) \<Rightarrow> string list \<Rightarrow> string list" where
  "lines_where keep ls = map (\<lambda>i. ls ! i) (filter keep [0..<length ls])"

text \<open>
  The reading of the specification in which a duplicate entry runs to the next entry
  header: the lines outside every duplicate entry.
\<close>

definition remove_duplicate_entries :: "string list \<Rightarrow> string list" where
  "remove_duplicate_entries ls = lines_where (\<lambda>i. \<not> in_duplicate_entry ls i) ls"

section \<open>test-aicf-efficiency.py\<close>

subsection \<open>\<open>count_tokens\<close>\<close>

text \<open>\<open>re.sub(r'\<bsol>s+', ' ', text)\<close>: every longest run of white space becomes one space.\<close>

function re_sub_spaces :: "string \<Rightarrow> string" where
  "re_sub_spaces [] = []"
| "re_sub_spaces (c # cs) =
     (if is_space c then CHR '' '' # re_sub_spaces (dropWhile is_space cs)
      else c # re_sub_spaces cs)"
  by pat_completeness auto
termination
  by (relation "measure length") (auto simp: less_Suc_eq_le length_dropWhile_le)

text \<open>\<open>[\<bsol>s\<bsol>W]\<close>\<close>

definition is_separator :: "char \<Rightarrow> bool" where
  "is_separator c = (is_space c \<or> \<not> is_word c)"

text \<open>
  \<open>re.split(r'[\<bsol>s\<bsol>W]+', text)\<close>: the pieces between the longest runs of separators, the
  empty pieces before a leading run and after a trailing one included.
\<close>

function re_split_acc :: "string \<Rightarrow> string \<Rightarrow> string list" where
  "re_split_acc cur [] = [cur]"
| "re_split_acc cur (c # cs) =
     (if is_separator c then cur # re_split_acc [] (dropWhile is_separator cs)
      else re_split_acc (cur @ [c]) cs)"
  by pat_completeness auto
termination
  by (relation "measure (\<lambda>(cur, s). length s)") (auto simp: less_Suc_eq_le length_dropWhile_le)

definition re_split :: "string \<Rightarrow> string list" where
  "re_split text = re_split_acc [] text"

definition count_tokens :: "string \<Rightarrow> nat" where
  "count_tokens text =
     (let text = re_sub_spaces text
      in length (filter (\<lambda>word. word \<noteq> []) (re_split text)))"

text \<open>
  The number of maximal runs of characters that satisfy \<open>P\<close>: one for each character
  of the class that the end of the string or a character outside the class follows.
\<close>

fun count_runs :: "(char \<Rightarrow> bool) \<Rightarrow> string \<Rightarrow> nat" where
  "count_runs P [] = 0"
| "count_runs P [c] = (if P c then 1 else 0)"
| "count_runs P (c # d # cs) =
     (if P c \<and> \<not> P d then 1 else 0) + count_runs P (d # cs)"

subsection \<open>\<open>analyze_file\<close>\<close>

record analysis =
  path :: string
  lines :: nat
  tokens :: nat
  size_bytes :: nat
  compression_ratio :: rat
  semantic_blocks :: nat

text \<open>\<open>len(content.encode('utf-8'))\<close>: a code point below 128 is one byte, the others here two.\<close>

definition utf8_length :: "string \<Rightarrow> nat" where
  "utf8_length content = sum_list (map (\<lambda>c. if code c < 128 then 1 else 2) content)"

text \<open>\<open>[A-Z_]\<close>\<close>

definition is_block_char :: "char \<Rightarrow> bool" where
  "is_block_char c = (in_range 65 90 c \<or> code c = 95)"

text \<open>
  \<open>len(re.findall(r'@[A-Z_]+', content))\<close>: a match starts at each \<open>@\<close> that a character
  of \<open>[A-Z_]\<close> follows; the run it takes holds no \<open>@\<close>, so no start is lost inside it.
\<close>

fun findall_blocks :: "string \<Rightarrow> nat" where
  "findall_blocks (c # d # cs) =
     (if c = CHR ''@'' \<and> is_block_char d then 1 else 0) + findall_blocks (d # cs)"
| "findall_blocks _ = 0"

text \<open>\<open>os.path.basename\<close>, \<open>os.path.join\<close>\<close>

definition basename :: "path \<Rightarrow> string" where
  "basename p = rev (takeWhile (\<lambda>c. c \<noteq> CHR ''/'') (rev p))"

definition path_join :: "path \<Rightarrow> string \<Rightarrow> path" where
  "path_join dir file =
     (if startswith file ''/'' then file
      else if dir = [] \<or> last dir = CHR ''/'' then dir @ file
      else dir @ ''/'' @ file)"

text \<open>
  The result is \<open>None\<close> where the file does not exist. The division of two integers is a
  float in Python; the model keeps the exact quotient.
\<close>

definition analyze_file :: "file_system \<Rightarrow> path \<Rightarrow> analysis option" where
  "analyze_file fs file_path =
     (case fs file_path of
        None \<Rightarrow> None
      | Some raw \<Rightarrow>
          (let content = universal_newlines raw;
               lines = filter (\<lambda>line. \<not> list_all is_space line) (split_lines content);
               tokens = count_tokens content;
               size = utf8_length content;
               semantic_blocks = findall_blocks content
           in Some \<lparr>path = basename file_path,
                    lines = length lines,
                    tokens = tokens,
                    size_bytes = size,
                    compression_ratio = (if size > 0 then of_nat tokens / of_nat size else 0),
                    semantic_blocks = semantic_blocks\<rparr>))"

subsection \<open>\<open>main\<close>\<close>

record totals =
  total_tokens :: nat
  total_size :: nat
  total_blocks :: nat

definition aicf_dir :: path where
  "aicf_dir = ''./.aicf''"

definition files :: "string list" where
  "files = [''index.aicf'', ''conversations.aicf'', ''decisions.aicf'', ''work-state.aicf'',
            ''technical-context.aicf'']"

text \<open>One iteration of \<open>for file in files\<close>.\<close>

definition add_file :: "file_system \<Rightarrow> totals \<Rightarrow> string \<Rightarrow> totals" where
  "add_file fs t file =
     (case analyze_file fs (path_join aicf_dir file) of
        None \<Rightarrow> t
      | Some analysis \<Rightarrow>
          \<lparr>total_tokens = total_tokens t + tokens analysis,
           total_size = total_size t + size_bytes analysis,
           total_blocks = total_blocks t + semantic_blocks analysis\<rparr>)"

definition sum_files :: "file_system \<Rightarrow> totals" where
  "sum_files fs =
     foldl (add_file fs) \<lparr>total_tokens = 0, total_size = 0, total_blocks = 0\<rparr> files"

text \<open>\<open>a / b\<close> on integers: \<open>ZeroDivisionError\<close> for a zero divisor.\<close>

definition truediv :: "int \<Rightarrow> int \<Rightarrow> exception + rat" where
  "truediv a b = (if b = 0 then Inl ZeroDivisionError else Inr (of_int a / of_int b))"

record overall_statistics =
  size_kb :: rat
  average_compression :: rat
  storage_efficiency :: rat
  estimated_json_size :: int
  compression_saved :: rat
  above_90 :: bool

text \<open>
  The branch \<open>if total_size > 0\<close>, its divisions in the order the code evaluates them;
  the first one that raises ends the branch.
\<close>

definition overall :: "totals \<Rightarrow> exception + overall_statistics" where
  "overall t =
     (case truediv (int (total_size t)) 1024 of
        Inl e \<Rightarrow> Inl e
      | Inr kb \<Rightarrow>
     (case truediv (int (total_tokens t)) (int (total_size t)) of
        Inl e \<Rightarrow> Inl e
      | Inr average \<Rightarrow>
     (case truediv (int (total_blocks t)) (int (total_size t)) of
        Inl e \<Rightarrow> Inl e
      | Inr blocks_per_byte \<Rightarrow>
     (let estimated_json_size = int (total_tokens t) * 15
      in case truediv (estimated_json_size - int (total_size t)) estimated_json_size of
           Inl e \<Rightarrow> Inl e
         | Inr q \<Rightarrow>
             (let compression_saved = q * 100
              in Inr \<lparr>size_kb = kb,
                      average_compression = average,
                      storage_efficiency = blocks_per_byte * 1000,
                      estimated_json_size = estimated_json_size,
                      compression_saved = compression_saved,
                      above_90 = (compression_saved > 90)\<rparr>)))))"

text \<open>\<open>main\<close>: \<open>None\<close> stands for the message that no valid file was found.\<close>

definition main :: "file_system \<Rightarrow> exception + overall_statistics option" where
  "main fs =
     (let t = sum_files fs
      in if total_size t > 0
         then (case overall t of Inl e \<Rightarrow> Inl e | Inr s \<Rightarrow> Inr (Some s))
         else Inr None)"


section \<open>Properties of the deduplicator\<close>

subsection \<open>One iteration and the whole scan\<close>

lemma header_key_identity:
  "header_key l = map_option (\<lambda>(conv_id, date). conversation_key conv_id date) (header_identity l)"
  by (simp add: header_key_def header_identity_def option.map_comp comp_def split_def)

lemma startswith_prefix: "startswith s p = prefix p s"
proof
  assume "startswith s p"
  then have "s = p @ drop (length p) s"
    by (metis append_take_drop_id startswith_def)
  then show "prefix p s"
    by (metis prefixI)
next
  assume "prefix p s"
  then show "startswith s p"
    by (auto simp: startswith_def prefix_def)
qed

lemma header_startswith_marker:
  assumes "chat_match l \<noteq> None"
  shows "startswith l ''## ''"
proof -
  from assms have "prefix ''## Chat '' l"
    by (auto simp: chat_match_def startswith_prefix split: if_splits)
  moreover have "prefix ''## '' ''## Chat ''"
    by simp
  ultimately show ?thesis
    unfolding startswith_prefix by (rule prefix_order.trans[rotated])
qed

lemma loop_body_seen:
  "seen_conversations (loop_body st l) =
     (case header_key l of None \<Rightarrow> seen_conversations st
      | Some k \<Rightarrow> insert k (seen_conversations st))"
  by (auto simp: loop_body_def header_key_def append_unless_skipping_def Let_def
           split: option.splits)

lemma loop_body_skip:
  "skip_until_next (loop_body st l) =
     (case header_key l of None \<Rightarrow> skip_until_next st \<and> \<not> startswith l ''## ''
      | Some k \<Rightarrow> k \<in> seen_conversations st)"
  by (auto simp: loop_body_def header_key_def append_unless_skipping_def Let_def
           split: option.splits)

lemma loop_body_filtered:
  "filtered_lines (loop_body st l) =
     filtered_lines st @ (if skip_until_next (loop_body st l) then [] else [l])"
  by (auto simp: loop_body_def append_unless_skipping_def Let_def split: option.splits)

lemma scan_Nil: "scan [] = initial_state"
  by (simp add: scan_def)

lemma scan_snoc: "scan (ls @ [l]) = loop_body (scan ls) l"
  by (simp add: scan_def)

lemma scan_append: "scan (xs @ ys) = foldl loop_body (scan xs) ys"
  by (simp add: scan_def)

lemma foldl_seen:
  "seen_conversations (foldl loop_body st ls) =
     seen_conversations st \<union> {k. \<exists>l \<in> set ls. header_key l = Some k}"
  by (induction ls arbitrary: st) (auto simp: loop_body_seen split: option.splits)

lemma scan_seen:
  "seen_conversations (scan ls) = {k. \<exists>l \<in> set ls. header_key l = Some k}"
  by (simp add: scan_def foldl_seen initial_state_def)

lemma foldl_filtered_prefix:
  "prefix (filtered_lines st) (filtered_lines (foldl loop_body st ls))"
proof (induction ls arbitrary: st)
  case Nil
  show ?case by simp
next
  case (Cons l ls)
  have "prefix (filtered_lines st) (filtered_lines (loop_body st l))"
    by (simp add: loop_body_filtered)
  also have "prefix \<dots> (filtered_lines (foldl loop_body (loop_body st l) ls))"
    by (rule Cons.IH)
  finally show ?case by simp
qed

lemma dedupe_lines_prefix:
  "prefix (filtered_lines (scan pre)) (dedupe_lines (pre @ rest))"
  by (simp add: dedupe_lines_def scan_append foldl_filtered_prefix)

lemma loop_body_duplicate:
  assumes "header_key h = Some k" and "k \<in> seen_conversations st"
  shows "loop_body st h = st\<lparr>skip_until_next := True\<rparr>"
  using assms
  by (auto simp: loop_body_def header_key_def Let_def split: option.splits)

lemma loop_body_section_line:
  assumes "startswith r ''## ''"
  shows "loop_body (st\<lparr>skip_until_next := b\<rparr>) r = loop_body st r"
  using assms
  by (cases "skip_until_next st")
     (auto simp: loop_body_def append_unless_skipping_def Let_def split: option.splits)

lemma foldl_skipped_body:
  assumes "skip_until_next st" and "list_all (\<lambda>l. \<not> startswith l ''## '') body"
  shows "foldl loop_body st body = st"
  using assms
proof (induction body)
  case Nil
  show ?case by simp
next
  case (Cons l body)
  from Cons.prems have n: "\<not> startswith l ''## ''"
    by simp
  with header_startswith_marker[of l] have "chat_match l = None"
    by blast
  with n Cons.prems(1) have "loop_body st l = st"
    by (simp add: loop_body_def append_unless_skipping_def)
  with Cons show ?case
    by simp
qed

lemma foldl_kept_body:
  assumes "\<not> skip_until_next st" and "list_all (\<lambda>l. chat_match l = None) body"
  shows "filtered_lines (foldl loop_body st body) = filtered_lines st @ body \<and>
         \<not> skip_until_next (foldl loop_body st body)"
  using assms
proof (induction body arbitrary: st)
  case Nil
  then show ?case by simp
next
  case (Cons l body)
  from Cons.prems have k: "header_key l = None"
    by (simp add: header_key_def)
  with Cons.prems(1) have s: "\<not> skip_until_next (loop_body st l)"
    by (simp add: loop_body_skip)
  then have f: "filtered_lines (loop_body st l) = filtered_lines st @ [l]"
    by (simp add: loop_body_filtered)
  from Cons.prems(2) have "list_all (\<lambda>l. chat_match l = None) body"
    by simp
  from Cons.IH[OF s this] f show ?case
    by simp
qed

lemma duplicate_span_dropped:
  assumes "header_key h = Some k" and "k \<in> seen_conversations (scan pre)"
    and "list_all (\<lambda>l. \<not> startswith l ''## '') body"
    and "case rest of [] \<Rightarrow> True | r # _ \<Rightarrow> startswith r ''## ''"
  shows "dedupe_lines (pre @ h # body @ rest) = dedupe_lines (pre @ rest)"
proof -
  let ?st = "scan pre"
  have "scan (pre @ h # body @ rest) = foldl loop_body (foldl loop_body (loop_body ?st h) body) rest"
    by (simp add: scan_def)
  also have "loop_body ?st h = ?st\<lparr>skip_until_next := True\<rparr>"
    using assms(1,2) by (rule loop_body_duplicate)
  also have "foldl loop_body (?st\<lparr>skip_until_next := True\<rparr>) body = ?st\<lparr>skip_until_next := True\<rparr>"
    using assms(3) by (simp add: foldl_skipped_body)
  finally have e: "scan (pre @ h # body @ rest) = foldl loop_body (?st\<lparr>skip_until_next := True\<rparr>) rest" .
  show ?thesis
  proof (cases rest)
    case Nil
    with e show ?thesis
      by (simp add: dedupe_lines_def)
  next
    case (Cons r rs)
    with assms(4) have "startswith r ''## ''"
      by simp
    then have "loop_body (?st\<lparr>skip_until_next := True\<rparr>) r = loop_body ?st r"
      by (rule loop_body_section_line)
    with e Cons show ?thesis
      by (simp add: dedupe_lines_def scan_append)
  qed
qed

lemma first_entry_kept:
  assumes "header_key h = Some k" and "k \<notin> seen_conversations (scan pre)"
    and "list_all (\<lambda>l. chat_match l = None) body"
  shows "prefix (dedupe_lines pre @ h # body) (dedupe_lines (pre @ h # body @ rest))"
proof -
  let ?st = "loop_body (scan pre) h"
  from assms(1,2) have s: "\<not> skip_until_next ?st"
    by (simp add: loop_body_skip)
  then have f: "filtered_lines ?st = filtered_lines (scan pre) @ [h]"
    by (simp add: loop_body_filtered)
  have "scan (pre @ h # body) = foldl loop_body ?st body"
    by (simp add: scan_def)
  with foldl_kept_body[OF s assms(3)] f
  have "filtered_lines (scan (pre @ h # body)) = dedupe_lines pre @ h # body"
    by (simp add: dedupe_lines_def)
  with dedupe_lines_prefix[of "pre @ h # body" rest] show ?thesis
    by simp
qed

subsection \<open>Skip spans by position\<close>

lemma duplicate_header_iff:
  "duplicate_header ls j = (\<exists>k. header_key (ls ! j) = Some k \<and> (\<exists>l \<in> set (take j ls). header_key l = Some k))"
  by (auto simp: duplicate_header_def list_ex_iff split: option.splits)

lemma list_all_upt_Suc:
  "list_all Q [Suc j..<Suc i] = (\<forall>k. j < k \<and> k \<le> i \<longrightarrow> Q k)"
  unfolding list_all_iff by (auto simp del: upt_Suc simp: Suc_le_eq less_Suc_eq_le)

lemma list_ex_upt_Suc:
  "list_ex P [0..<Suc i] = (\<exists>j\<le>i. P j)"
  unfolding list_ex_iff by (auto simp del: upt_Suc simp: less_Suc_eq_le)

lemma in_skip_span_iff:
  "in_skip_span ls i =
     (\<exists>j\<le>i. duplicate_header ls j \<and> (\<forall>k. j < k \<and> k \<le> i \<longrightarrow> \<not> startswith (ls ! k) ''## ''))"
  unfolding in_skip_span_def list_all_upt_Suc list_ex_upt_Suc ..

lemma in_duplicate_entry_iff:
  "in_duplicate_entry ls i =
     (\<exists>j\<le>i. duplicate_header ls j \<and> (\<forall>k. j < k \<and> k \<le> i \<longrightarrow> chat_match (ls ! k) = None))"
  unfolding in_duplicate_entry_def list_all_upt_Suc list_ex_upt_Suc ..

lemma duplicate_header_old:
  "j < length ls \<Longrightarrow> duplicate_header (ls @ [l]) j = duplicate_header ls j"
  by (simp add: duplicate_header_iff nth_append)

lemma duplicate_header_last:
  "duplicate_header (ls @ [l]) (length ls) =
     (case header_key l of None \<Rightarrow> False | Some k \<Rightarrow> k \<in> seen_conversations (scan ls))"
  by (auto simp: duplicate_header_iff scan_seen split: option.splits)

lemma in_skip_span_old:
  assumes "i < length ls"
  shows "in_skip_span (ls @ [l]) i = in_skip_span ls i"
proof -
  have "\<And>j. j \<le> i \<Longrightarrow> duplicate_header (ls @ [l]) j = duplicate_header ls j"
    using assms by (simp add: duplicate_header_old)
  moreover have "\<And>k. k \<le> i \<Longrightarrow> (ls @ [l]) ! k = ls ! k"
    using assms by (simp add: nth_append)
  ultimately show ?thesis
    unfolding in_skip_span_iff by auto
qed

lemma in_skip_span_last:
  "in_skip_span (ls @ [l]) (length ls) =
     (duplicate_header (ls @ [l]) (length ls) \<or>
      (\<not> startswith l ''## '' \<and> ls \<noteq> [] \<and> in_skip_span ls (length ls - 1)))"
  (is "?L = (?D \<or> ?R)")
proof
  assume ?L
  then obtain j where j: "j \<le> length ls" "duplicate_header (ls @ [l]) j"
    and n: "\<forall>k. j < k \<and> k \<le> length ls \<longrightarrow> \<not> startswith ((ls @ [l]) ! k) ''## ''"
    unfolding in_skip_span_iff by blast
  show "?D \<or> ?R"
  proof (cases "j = length ls")
    case True
    with j show ?thesis by simp
  next
    case False
    with j have jl: "j < length ls" by simp
    with n have "\<not> startswith l ''## ''"
      by (metis le_refl nth_append_length)
    moreover from jl have "ls \<noteq> []" by auto
    moreover have "in_skip_span ls (length ls - 1)"
      unfolding in_skip_span_iff
    proof (intro exI conjI allI impI)
      show "j \<le> length ls - 1" using jl by simp
      show "duplicate_header ls j" using j jl by (simp add: duplicate_header_old)
      fix k assume "j < k \<and> k \<le> length ls - 1"
      with jl n have "\<not> startswith ((ls @ [l]) ! k) ''## ''" and "k < length ls"
        by auto
      then show "\<not> startswith (ls ! k) ''## ''"
        by (simp add: nth_append)
    qed
    ultimately show ?thesis by simp
  qed
next
  assume "?D \<or> ?R"
  then show ?L
  proof
    assume ?D
    then show ?L
      unfolding in_skip_span_iff by (intro exI[of _ "length ls"]) auto
  next
    assume r: ?R
    then obtain j where j: "j \<le> length ls - 1" "duplicate_header ls j"
      and n: "\<forall>k. j < k \<and> k \<le> length ls - 1 \<longrightarrow> \<not> startswith (ls ! k) ''## ''"
      unfolding in_skip_span_iff by blast
    from r have ne: "ls \<noteq> []" by simp
    with j have jl: "j < length ls" by (cases ls) auto
    show ?L
      unfolding in_skip_span_iff
    proof (intro exI conjI allI impI)
      show "j \<le> length ls" using jl by simp
      show "duplicate_header (ls @ [l]) j" using j jl by (simp add: duplicate_header_old)
      fix k assume k: "j < k \<and> k \<le> length ls"
      show "\<not> startswith ((ls @ [l]) ! k) ''## ''"
      proof (cases "k = length ls")
        case True
        with r show ?thesis by simp
      next
        case False
        with k have "k < length ls" by simp
        with k n show ?thesis by (simp add: nth_append)
      qed
    qed
  qed
qed

lemma scan_skip:
  "skip_until_next (scan ls) = (ls \<noteq> [] \<and> in_skip_span ls (length ls - 1))"
proof (induction ls rule: rev_induct)
  case Nil
  show ?case by (simp add: scan_Nil initial_state_def)
next
  case (snoc l ls)
  show ?case
  proof (cases "header_key l")
    case None
    then show ?thesis
      using snoc
      by (simp add: scan_snoc loop_body_skip in_skip_span_last duplicate_header_last) blast
  next
    case (Some k)
    then have "chat_match l \<noteq> None"
      by (auto simp: header_key_def)
    then have "startswith l ''## ''"
      by (rule header_startswith_marker)
    with Some show ?thesis
      by (simp add: scan_snoc loop_body_skip in_skip_span_last duplicate_header_last)
  qed
qed

lemma lines_where_snoc:
  assumes "\<And>i. i < length ls \<Longrightarrow> keep' i = keep i"
  shows "lines_where keep' (ls @ [l]) = lines_where keep ls @ (if keep' (length ls) then [l] else [])"
proof -
  have "filter keep' [0..<length ls] = filter keep [0..<length ls]"
    using assms by (intro filter_cong) auto
  moreover have "map (\<lambda>i. (ls @ [l]) ! i) (filter keep [0..<length ls]) =
                 map (\<lambda>i. ls ! i) (filter keep [0..<length ls])"
    by (intro map_cong) (auto simp: nth_append)
  ultimately show ?thesis
    by (simp add: lines_where_def)
qed

lemma dedupe_lines_spans:
  "dedupe_lines ls = lines_where (\<lambda>i. \<not> in_skip_span ls i) ls"
proof (induction ls rule: rev_induct)
  case Nil
  show ?case by (simp add: dedupe_lines_def scan_Nil initial_state_def lines_where_def)
next
  case (snoc l ls)
  have "skip_until_next (scan (ls @ [l])) = in_skip_span (ls @ [l]) (length ls)"
    by (simp add: scan_skip)
  moreover have "lines_where (\<lambda>i. \<not> in_skip_span (ls @ [l]) i) (ls @ [l]) =
        lines_where (\<lambda>i. \<not> in_skip_span ls i) ls @
        (if \<not> in_skip_span (ls @ [l]) (length ls) then [l] else [])"
    by (rule lines_where_snoc) (simp add: in_skip_span_old)
  ultimately show ?case
    using snoc by (simp add: dedupe_lines_def scan_snoc loop_body_filtered)
qed

lemma dedupe_lines_subseq: "subseq (dedupe_lines ls) ls"
proof (induction ls rule: rev_induct)
  case Nil
  show ?case by (simp add: dedupe_lines_def scan_Nil initial_state_def)
next
  case (snoc l ls)
  have "subseq (dedupe_lines ls @ (if skip_until_next (scan (ls @ [l])) then [] else [l])) (ls @ [l])"
    using snoc by (intro list_emb_append_mono) auto
  then show ?case
    by (simp add: dedupe_lines_def scan_snoc loop_body_filtered)
qed

lemma skip_span_in_duplicate_entry:
  "in_skip_span ls i \<Longrightarrow> in_duplicate_entry ls i"
  unfolding in_skip_span_iff in_duplicate_entry_iff
  using header_startswith_marker by blast

lemma dedupe_lines_subset: "set (dedupe_lines ls) \<subseteq> set ls"
  using dedupe_lines_subseq[of ls] by (auto dest: list_emb_set)

subsection \<open>Removal of duplicate entries\<close>

text \<open>
  Claim C1, as the code has it. When a header line's key is already in the seen set, the
  scan drops that header and every following line up to the next line that begins with the
  section marker \<open>## \<close>, be it an entry header or any other section line: the output is
  the one the document without that span gives. Such a span is dropped whole, and a
  duplicate entry whose body holds no line beginning with \<open>## \<close> is dropped whole. An
  entry whose header has a new key is kept whole: its header and its body up to the next
  entry header are appended to the output in order.
\<close>

theorem duplicate_entry_span:
  "(header_key h = Some k \<and> k \<in> seen_conversations (scan pre) \<and>
    list_all (\<lambda>l. \<not> startswith l ''## '') body \<and>
    (case rest of [] \<Rightarrow> True | r # _ \<Rightarrow> startswith r ''## '')
      \<longrightarrow> dedupe_lines (pre @ h # body @ rest) = dedupe_lines (pre @ rest)) \<and>
   (header_key h' = Some k' \<and> k' \<notin> seen_conversations (scan pre') \<and>
    list_all (\<lambda>l. chat_match l = None) body'
      \<longrightarrow> prefix (dedupe_lines pre' @ h' # body') (dedupe_lines (pre' @ h' # body' @ rest')))"
  using duplicate_span_dropped first_entry_kept by blast

text \<open>
  The first part at a document with a duplicate entry of two body lines, the second part at
  the first entry of a document.
\<close>

theorem duplicate_entry_span_witness:
  "header_key ''## Chat a1 - 2024-01-01 - Two'' = Some ''a1-2024-01-01'' \<and>
   ''a1-2024-01-01'' \<in> seen_conversations (scan [''## Chat a1 - 2024-01-01 - One'', ''x'']) \<and>
   dedupe_lines ([''## Chat a1 - 2024-01-01 - One'', ''x''] @ ''## Chat a1 - 2024-01-01 - Two'' #
                 [''y'', ''z''] @ [''## Chat b2 - 2024-01-02 - Three'', ''w'']) =
     dedupe_lines ([''## Chat a1 - 2024-01-01 - One'', ''x''] @
                   [''## Chat b2 - 2024-01-02 - Three'', ''w'']) \<and>
   dedupe_lines ([''## Chat a1 - 2024-01-01 - One'', ''x''] @ ''## Chat a1 - 2024-01-01 - Two'' #
                 [''y'', ''z''] @ [''## Chat b2 - 2024-01-02 - Three'', ''w'']) =
     [''## Chat a1 - 2024-01-01 - One'', ''x'', ''## Chat b2 - 2024-01-02 - Three'', ''w''] \<and>
   header_key ''## Chat a1 - 2024-01-01 - One'' = Some ''a1-2024-01-01'' \<and>
   ''a1-2024-01-01'' \<notin> seen_conversations (scan []) \<and>
   prefix (dedupe_lines [] @ ''## Chat a1 - 2024-01-01 - One'' # [''x''])
          (dedupe_lines ([] @ ''## Chat a1 - 2024-01-01 - One'' # [''x''] @
                         [''## Chat a1 - 2024-01-01 - Two'', ''y'']))"
proof -
  have h1: "header_key ''## Chat a1 - 2024-01-01 - Two'' = Some ''a1-2024-01-01'' \<and>
            ''a1-2024-01-01'' \<in> seen_conversations (scan [''## Chat a1 - 2024-01-01 - One'', ''x'']) \<and>
            list_all (\<lambda>l. \<not> startswith l ''## '') [''y'', ''z''] \<and>
            (case [''## Chat b2 - 2024-01-02 - Three'', ''w''] of [] \<Rightarrow> True
             | r # _ \<Rightarrow> startswith r ''## '')"
    by code_simp
  have h2: "header_key ''## Chat a1 - 2024-01-01 - One'' = Some ''a1-2024-01-01'' \<and>
            ''a1-2024-01-01'' \<notin> seen_conversations (scan []) \<and>
            list_all (\<lambda>l. chat_match l = None) [''x'']"
    by code_simp
  have e: "dedupe_lines ([''## Chat a1 - 2024-01-01 - One'', ''x''] @ ''## Chat a1 - 2024-01-01 - Two'' #
                 [''y'', ''z''] @ [''## Chat b2 - 2024-01-02 - Three'', ''w'']) =
     [''## Chat a1 - 2024-01-01 - One'', ''x'', ''## Chat b2 - 2024-01-02 - Three'', ''w'']"
    by code_simp
  from h1 duplicate_entry_span[of "''## Chat a1 - 2024-01-01 - Two''" "''a1-2024-01-01''"
      "[''## Chat a1 - 2024-01-01 - One'', ''x'']" "[''y'', ''z'']"
      "[''## Chat b2 - 2024-01-02 - Three'', ''w'']"]
  have c1: "dedupe_lines ([''## Chat a1 - 2024-01-01 - One'', ''x''] @ ''## Chat a1 - 2024-01-01 - Two'' #
                 [''y'', ''z''] @ [''## Chat b2 - 2024-01-02 - Three'', ''w'']) =
     dedupe_lines ([''## Chat a1 - 2024-01-01 - One'', ''x''] @
                   [''## Chat b2 - 2024-01-02 - Three'', ''w''])"
    by blast
  from h2 duplicate_entry_span[of _ _ _ _ _ "''## Chat a1 - 2024-01-01 - One''" "''a1-2024-01-01''"
      "[]" "[''x'']" "[''## Chat a1 - 2024-01-01 - Two'', ''y'']"]
  have c2: "prefix (dedupe_lines [] @ ''## Chat a1 - 2024-01-01 - One'' # [''x''])
          (dedupe_lines ([] @ ''## Chat a1 - 2024-01-01 - One'' # [''x''] @
                         [''## Chat a1 - 2024-01-01 - Two'', ''y'']))"
    by blast
  from h1 h2 e c1 c2 show ?thesis
    by blast
qed

text \<open>
  Claim C1 as stated fails where the body of a duplicate entry holds a section line that is
  not an entry header. The second entry below repeats the key of the first; its body
  \<open>y\<close>, \<open>## Notes\<close>, \<open>z\<close> runs to the next entry header. The scan drops the
  header and \<open>y\<close> and keeps \<open>## Notes\<close> and \<open>z\<close>, so the entry is removed in part;
  removing it up to the next entry header would give three lines.
\<close>

theorem duplicate_entry_partly_removed:
  "header_key ''## Chat a1 - 2024-01-01 - Two'' = Some ''a1-2024-01-01'' \<and>
   ''a1-2024-01-01'' \<in> seen_conversations (scan [''## Chat a1 - 2024-01-01 - One'', ''x'']) \<and>
   list_all (\<lambda>l. chat_match l = None) [''y'', ''## Notes'', ''z''] \<and>
   chat_match ''## Chat b2 - 2024-01-02 - Three'' \<noteq> None \<and>
   dedupe_lines ([''## Chat a1 - 2024-01-01 - One'', ''x''] @ ''## Chat a1 - 2024-01-01 - Two'' #
                 [''y'', ''## Notes'', ''z''] @ [''## Chat b2 - 2024-01-02 - Three'']) =
     [''## Chat a1 - 2024-01-01 - One'', ''x'', ''## Notes'', ''z'',
      ''## Chat b2 - 2024-01-02 - Three''] \<and>
   remove_duplicate_entries
     ([''## Chat a1 - 2024-01-01 - One'', ''x''] @ ''## Chat a1 - 2024-01-01 - Two'' #
      [''y'', ''## Notes'', ''z''] @ [''## Chat b2 - 2024-01-02 - Three'']) =
     [''## Chat a1 - 2024-01-01 - One'', ''x'', ''## Chat b2 - 2024-01-02 - Three'']"
  by code_simp

subsection \<open>Idempotence\<close>

lemma map_filter_snoc:
  "List.map_filter f (xs @ [x]) =
     List.map_filter f xs @ (case f x of None \<Rightarrow> [] | Some y \<Rightarrow> [y])"
  by (simp add: List.map_filter_def split: option.splits)

lemma output_keys_distinct:
  "distinct (List.map_filter header_key (filtered_lines (scan ls))) \<and>
   set (List.map_filter header_key (filtered_lines (scan ls))) \<subseteq> seen_conversations (scan ls)"
proof (induction ls rule: rev_induct)
  case Nil
  show ?case
    by (simp add: scan_Nil initial_state_def List.map_filter_def)
next
  case (snoc l ls)
  let ?st = "scan ls"
  let ?ks = "List.map_filter header_key (filtered_lines ?st)"
  from snoc have d: "distinct ?ks" and sub: "set ?ks \<subseteq> seen_conversations ?st"
    by simp_all
  show ?case
  proof (cases "header_key l")
    case None
    then show ?thesis
      using d sub
      by (auto simp: scan_snoc loop_body_filtered loop_body_seen map_filter_snoc)
  next
    case (Some k)
    show ?thesis
    proof (cases "k \<in> seen_conversations ?st")
      case True
      then show ?thesis
        using d sub Some
        by (auto simp: scan_snoc loop_body_filtered loop_body_seen loop_body_skip)
    next
      case False
      with sub have "k \<notin> set ?ks"
        by blast
      with False show ?thesis
        using d sub Some
        by (auto simp: scan_snoc loop_body_filtered loop_body_seen loop_body_skip
                       map_filter_snoc)
    qed
  qed
qed

lemma scan_distinct_keys:
  assumes "distinct (List.map_filter header_key ls)"
  shows "filtered_lines (scan ls) = ls \<and> \<not> skip_until_next (scan ls)"
  using assms
proof (induction ls rule: rev_induct)
  case Nil
  show ?case
    by (simp add: scan_Nil initial_state_def)
next
  case (snoc l ls)
  from snoc.prems have d: "distinct (List.map_filter header_key ls)"
    by (simp add: map_filter_snoc)
  with snoc.IH have f: "filtered_lines (scan ls) = ls" and s: "\<not> skip_until_next (scan ls)"
    by simp_all
  show ?case
  proof (cases "header_key l")
    case None
    then show ?thesis
      using f s by (simp add: scan_snoc loop_body_filtered loop_body_skip)
  next
    case (Some k)
    with snoc.prems have "k \<notin> set (List.map_filter header_key ls)"
      by (simp add: map_filter_snoc)
    then have "k \<notin> seen_conversations (scan ls)"
      by (force simp: scan_seen List.map_filter_def)
    then show ?thesis
      using f Some by (simp add: scan_snoc loop_body_filtered loop_body_skip)
  qed
qed

lemma dedupe_lines_idem: "dedupe_lines (dedupe_lines ls) = dedupe_lines ls"
  using output_keys_distinct[of ls] scan_distinct_keys[of "dedupe_lines ls"]
  by (simp add: dedupe_lines_def)

lemma split_acc_not_Nil: "split_acc cur s \<noteq> []"
  by (induction s arbitrary: cur) auto

lemma split_acc_no_LF:
  "LF \<notin> set cur \<Longrightarrow> \<forall>l \<in> set (split_acc cur s). LF \<notin> set l"
proof (induction s arbitrary: cur)
  case Nil
  then show ?case by simp
next
  case (Cons c s)
  show ?case
  proof (cases "c = LF")
    case True
    with Cons.prems Cons.IH[of "[]"] show ?thesis by simp
  next
    case False
    with Cons.prems Cons.IH[of "cur @ [c]"] show ?thesis by simp
  qed
qed

lemma split_acc_append:
  "LF \<notin> set l \<Longrightarrow> split_acc cur (l @ rest) = split_acc (cur @ l) rest"
  by (induction l arbitrary: cur) auto

lemma split_acc_join:
  assumes "LF \<notin> set l" and "\<forall>x \<in> set ls. LF \<notin> set x"
  shows "split_acc cur (join_lines (l # ls)) = (cur @ l) # ls"
  using assms
proof (induction ls arbitrary: cur l)
  case Nil
  then show ?case
    using split_acc_append[of l cur "[]"] by simp
next
  case (Cons l' ls)
  from Cons.prems have "split_acc [] (join_lines (l' # ls)) = ([] @ l') # ls"
    by (intro Cons.IH) auto
  with Cons.prems(1) show ?case
    by (simp add: split_acc_append)
qed

lemma split_join_lines:
  assumes "ls \<noteq> []" and "\<forall>x \<in> set ls. LF \<notin> set x"
  shows "split_lines (join_lines ls) = ls"
proof -
  from assms(1) obtain l ls' where "ls = l # ls'"
    by (cases ls) auto
  with assms(2) split_acc_join[of l ls' "[]"] show ?thesis
    by (simp add: split_lines_def)
qed

lemma dedupe_lines_not_Nil:
  assumes "ls \<noteq> []"
  shows "dedupe_lines ls \<noteq> []"
proof -
  from assms obtain l ls' where ls: "ls = [l] @ ls'"
    by (cases ls) auto
  have "\<not> skip_until_next (scan [l])"
    using scan_snoc[of "[]" l]
    by (simp add: scan_Nil loop_body_skip initial_state_def split: option.splits)
  then have "filtered_lines (scan [l]) = [l]"
    using scan_snoc[of "[]" l] by (simp add: scan_Nil loop_body_filtered initial_state_def)
  with dedupe_lines_prefix[of "[l]" ls'] ls show ?thesis
    by auto
qed

lemma split_dedupe_content:
  "split_lines (dedupe_content c) = dedupe_lines (split_lines c)"
  unfolding dedupe_content_def
proof (rule split_join_lines)
  show "dedupe_lines (split_lines c) \<noteq> []"
    by (simp add: dedupe_lines_not_Nil split_lines_def split_acc_not_Nil)
  show "\<forall>x \<in> set (dedupe_lines (split_lines c)). LF \<notin> set x"
    using dedupe_lines_subset[of "split_lines c"] split_acc_no_LF[of "[]" c]
    by (auto simp: split_lines_def)
qed

text \<open>
  Claim C2. Running the transform on its own output changes nothing: on the list of lines,
  and on the text of the file (split at line feeds, filtered, joined again). The second
  pass removes no line.
\<close>

theorem dedupe_idempotent:
  "dedupe_lines (dedupe_lines ls) = dedupe_lines ls \<and>
   dedupe_content (dedupe_content c) = dedupe_content c"
proof
  show "dedupe_lines (dedupe_lines ls) = dedupe_lines ls"
    by (rule dedupe_lines_idem)
  have "dedupe_content (dedupe_content c) =
          join_lines (dedupe_lines (dedupe_lines (split_lines c)))"
    by (simp add: dedupe_content_def[of "dedupe_content c"] split_dedupe_content)
  then show "dedupe_content (dedupe_content c) = dedupe_content c"
    by (simp add: dedupe_lines_idem dedupe_content_def)
qed

subsection \<open>The end of a skip at a section line\<close>

text \<open>
  Claim C3. When the scan is skipping after the lines \<open>pre\<close> and reaches a line that is
  not an entry header but begins with \<open>## \<close>, the skip ends at that line and the line
  is appended to the output; it stays in the output of every document that continues
  \<open>pre\<close> and the line.
\<close>

theorem section_line_ends_skip:
  assumes "chat_match line = None" and "startswith line ''## ''"
    and "skip_until_next (scan pre)"
  shows "\<not> skip_until_next (scan (pre @ [line])) \<and>
         filtered_lines (scan (pre @ [line])) = filtered_lines (scan pre) @ [line] \<and>
         prefix (filtered_lines (scan pre) @ [line]) (dedupe_lines (pre @ line # rest))"
proof -
  from assms(1) have k: "header_key line = None"
    by (simp add: header_key_def)
  have s: "\<not> skip_until_next (scan (pre @ [line]))"
    using assms(2) by (simp add: scan_snoc loop_body_skip k)
  have f: "filtered_lines (scan (pre @ [line])) = filtered_lines (scan pre) @ [line]"
    using s by (simp add: scan_snoc loop_body_filtered)
  have "prefix (filtered_lines (scan (pre @ [line]))) (dedupe_lines ((pre @ [line]) @ rest))"
    by (rule dedupe_lines_prefix)
  with s f show ?thesis
    by simp
qed

text \<open>Scenario C: a section line in the body of a duplicate entry.\<close>

theorem section_line_ends_skip_witness:
  "chat_match ''## Notes'' = None \<and> startswith ''## Notes'' ''## '' \<and>
   skip_until_next (scan [''## Chat a1 - 2024-01-01 - One'', ''## Chat a1 - 2024-01-01 - Two'', ''y'']) \<and>
   \<not> skip_until_next (scan ([''## Chat a1 - 2024-01-01 - One'', ''## Chat a1 - 2024-01-01 - Two'', ''y''] @ [''## Notes''])) \<and>
   filtered_lines (scan ([''## Chat a1 - 2024-01-01 - One'', ''## Chat a1 - 2024-01-01 - Two'', ''y''] @ [''## Notes''])) =
     filtered_lines (scan [''## Chat a1 - 2024-01-01 - One'', ''## Chat a1 - 2024-01-01 - Two'', ''y'']) @ [''## Notes''] \<and>
   dedupe_lines ([''## Chat a1 - 2024-01-01 - One'', ''## Chat a1 - 2024-01-01 - Two'', ''y''] @ ''## Notes'' # [''z'']) =
     [''## Chat a1 - 2024-01-01 - One'', ''## Notes'', ''z'']"
proof -
  have h: "chat_match ''## Notes'' = None" "startswith ''## Notes'' ''## ''"
    "skip_until_next (scan [''## Chat a1 - 2024-01-01 - One'', ''## Chat a1 - 2024-01-01 - Two'', ''y''])"
    by code_simp+
  have e: "dedupe_lines ([''## Chat a1 - 2024-01-01 - One'', ''## Chat a1 - 2024-01-01 - Two'', ''y''] @ ''## Notes'' # [''z'']) =
     [''## Chat a1 - 2024-01-01 - One'', ''## Notes'', ''z'']"
    by code_simp
  from section_line_ends_skip[OF h, of "[''z'']"] h e show ?thesis
    by blast
qed

subsection \<open>Unique identities\<close>

lemma map_filter_header_key:
  "List.map_filter header_key xs =
     map (\<lambda>(conv_id, date). conversation_key conv_id date) (List.map_filter header_identity xs)"
  by (induction xs) (auto simp: List.map_filter_def header_key_identity split: option.splits)

lemma chat_match_parts:
  assumes "chat_match l = Some (conv_id, date, title)"
  shows "list_all is_hex conv_id" and "length date = 10"
proof -
  from assms have c: "conv_id = takeWhile is_hex (drop 8 l)"
    by (auto simp: chat_match_def Let_def split: if_splits)
  show "list_all is_hex conv_id"
    unfolding c list_all_iff by (auto dest: set_takeWhileD)
  from assms have "match_date date"
    by (auto simp: chat_match_def Let_def split: if_splits)
  then show "length date = 10"
    by (cases date rule: match_date.cases) auto
qed

lemma conversation_key_inj:
  assumes "length date = 10" and "length date' = 10"
    and "conversation_key conv_id date = conversation_key conv_id' date'"
  shows "conv_id = conv_id' \<and> date = date'"
proof -
  from assms(3) have e: "conv_id @ (CHR ''-'' # date) = conv_id' @ (CHR ''-'' # date')"
    by (simp add: conversation_key_def)
  then have "length (conv_id @ (CHR ''-'' # date)) = length (conv_id' @ (CHR ''-'' # date'))"
    by simp
  with assms(1,2) have "length conv_id = length conv_id'"
    by simp
  with e show ?thesis
    by simp
qed

text \<open>
  Claim C4. The pairs \<open>(id, date)\<close> of the header lines of the output are pairwise
  distinct. The key \<open>id-date\<close> the scan stores is injective on parsed headers: two
  headers with the same key have the same identifier and the same date.
\<close>

theorem identity_unique:
  "distinct (List.map_filter header_identity (dedupe_lines ls)) \<and>
   (chat_match l = Some (conv_id, date, title) \<and>
    chat_match l' = Some (conv_id', date', title') \<and>
    conversation_key conv_id date = conversation_key conv_id' date'
      \<longrightarrow> conv_id = conv_id' \<and> date = date')"
proof
  have "distinct (List.map_filter header_key (dedupe_lines ls))"
    using output_keys_distinct[of ls] by (simp add: dedupe_lines_def)
  then show "distinct (List.map_filter header_identity (dedupe_lines ls))"
    unfolding map_filter_header_key by (simp add: distinct_map)
next
  show "chat_match l = Some (conv_id, date, title) \<and>
    chat_match l' = Some (conv_id', date', title') \<and>
    conversation_key conv_id date = conversation_key conv_id' date'
      \<longrightarrow> conv_id = conv_id' \<and> date = date'"
    using chat_match_parts(2) conversation_key_inj by blast
qed

text \<open>A document with a repeated identity, and two header lines with the same key.\<close>

theorem identity_unique_witness:
  "distinct (List.map_filter header_identity
     (dedupe_lines [''## Chat a1 - 2024-01-01 - One'', ''x'', ''## Chat a1 - 2024-01-01 - Two'',
                    ''y'', ''## Chat b2 - 2024-01-02 - Three''])) \<and>
   List.map_filter header_identity
     (dedupe_lines [''## Chat a1 - 2024-01-01 - One'', ''x'', ''## Chat a1 - 2024-01-01 - Two'',
                    ''y'', ''## Chat b2 - 2024-01-02 - Three'']) =
     [(''a1'', ''2024-01-01''), (''b2'', ''2024-01-02'')] \<and>
   chat_match ''## Chat a1 - 2024-01-01 - One'' = Some (''a1'', ''2024-01-01'', ''One'') \<and>
   chat_match ''## Chat a1 - 2024-01-01 - Two'' = Some (''a1'', ''2024-01-01'', ''Two'') \<and>
   conversation_key ''a1'' ''2024-01-01'' = conversation_key ''a1'' ''2024-01-01''"
proof -
  have e: "List.map_filter header_identity
     (dedupe_lines [''## Chat a1 - 2024-01-01 - One'', ''x'', ''## Chat a1 - 2024-01-01 - Two'',
                    ''y'', ''## Chat b2 - 2024-01-02 - Three'']) =
     [(''a1'', ''2024-01-01''), (''b2'', ''2024-01-02'')]"
    "chat_match ''## Chat a1 - 2024-01-01 - One'' = Some (''a1'', ''2024-01-01'', ''One'')"
    "chat_match ''## Chat a1 - 2024-01-01 - Two'' = Some (''a1'', ''2024-01-01'', ''Two'')"
    by code_simp+
  from identity_unique[of "[''## Chat a1 - 2024-01-01 - One'', ''x'', ''## Chat a1 - 2024-01-01 - Two'',
                    ''y'', ''## Chat b2 - 2024-01-02 - Three'']"] e
  show ?thesis
    by blast
qed

subsection \<open>The output as a subsequence\<close>

text \<open>
  Claim C5. The output is a subsequence of the input: lines of the input, unchanged and in
  order. It consists of exactly the lines outside the skip spans, and every line of a skip
  span lies in a duplicate entry.
\<close>

theorem output_is_subsequence:
  "subseq (dedupe_lines ls) ls \<and>
   dedupe_lines ls = lines_where (\<lambda>i. \<not> in_skip_span ls i) ls \<and>
   (in_skip_span ls i \<longrightarrow> in_duplicate_entry ls i)"
  using dedupe_lines_subseq dedupe_lines_spans skip_span_in_duplicate_entry by blast

text \<open>Line 3 of this document is the body line of a duplicate entry.\<close>

theorem output_is_subsequence_witness:
  "subseq (dedupe_lines [''## Chat a1 - 2024-01-01 - One'', ''x'', ''## Chat a1 - 2024-01-01 - Two'',
                         ''y'', ''## Notes'', ''z''])
          [''## Chat a1 - 2024-01-01 - One'', ''x'', ''## Chat a1 - 2024-01-01 - Two'',
           ''y'', ''## Notes'', ''z''] \<and>
   dedupe_lines [''## Chat a1 - 2024-01-01 - One'', ''x'', ''## Chat a1 - 2024-01-01 - Two'',
                 ''y'', ''## Notes'', ''z''] =
     [''## Chat a1 - 2024-01-01 - One'', ''x'', ''## Notes'', ''z''] \<and>
   in_skip_span [''## Chat a1 - 2024-01-01 - One'', ''x'', ''## Chat a1 - 2024-01-01 - Two'',
                 ''y'', ''## Notes'', ''z''] 3 \<and>
   in_duplicate_entry [''## Chat a1 - 2024-01-01 - One'', ''x'', ''## Chat a1 - 2024-01-01 - Two'',
                       ''y'', ''## Notes'', ''z''] 3"
proof -
  have e: "dedupe_lines [''## Chat a1 - 2024-01-01 - One'', ''x'', ''## Chat a1 - 2024-01-01 - Two'',
                 ''y'', ''## Notes'', ''z''] =
     [''## Chat a1 - 2024-01-01 - One'', ''x'', ''## Notes'', ''z'']"
    "in_skip_span [''## Chat a1 - 2024-01-01 - One'', ''x'', ''## Chat a1 - 2024-01-01 - Two'',
                 ''y'', ''## Notes'', ''z''] 3"
    by code_simp+
  from output_is_subsequence[of "[''## Chat a1 - 2024-01-01 - One'', ''x'',
      ''## Chat a1 - 2024-01-01 - Two'', ''y'', ''## Notes'', ''z'']" 3] e
  show ?thesis
    by blast
qed

subsection \<open>The run on an empty file\<close>

lemma paths_differ: "log_file \<noteq> backup_file"
  by (simp add: log_file_def backup_file_def)

text \<open>
  Claim C6, as the code has it. On a file that exists and is empty, with no call failing,
  the run renames the file to the backup and writes the empty text to the original path,
  so both hold the empty text. \<open>''.split('\<bsol>n')\<close> is the one empty line, so the
  original and the final line count are 1; the removed line count and the number of
  conversations are 0, and the run returns 0.
\<close>

theorem empty_file_run:
  assumes "fs log_file = Some []"
    and "\<not> read_fails env" and "\<not> rename_fails env" and "\<not> write_fails env"
  shows "dedupe_conversation_log env fs =
           \<lparr>fs_after = fs(backup_file \<mapsto> [], log_file \<mapsto> []),
            performed = [Rename log_file backup_file, Write_text log_file []],
            outcome = Returned 0,
            reported = Some \<lparr>original_lines = 1, final_lines = 1, removed_lines = 0,
                             conversations_found = 0\<rparr>\<rparr>"
proof -
  have "scan [[]] = initial_state\<lparr>filtered_lines := [[]]\<rparr>"
    by (simp add: scan_def loop_body_def chat_match_def startswith_def
                  append_unless_skipping_def initial_state_def)
  then show ?thesis
    using assms
    by (simp add: dedupe_conversation_log_def read_text_def rename_def write_text_def
                  split_lines_def initial_state_def)
qed

theorem empty_file_run_witness:
  "[log_file \<mapsto> []] log_file = Some [] \<and>
   dedupe_conversation_log
     \<lparr>read_fails = False, rename_fails = False, write_fails = False, write_leftover = None\<rparr>
     [log_file \<mapsto> []] =
   \<lparr>fs_after = [log_file \<mapsto> [], backup_file \<mapsto> [], log_file \<mapsto> []],
    performed = [Rename log_file backup_file, Write_text log_file []],
    outcome = Returned 0,
    reported = Some \<lparr>original_lines = 1, final_lines = 1, removed_lines = 0,
                     conversations_found = 0\<rparr>\<rparr>"
  using empty_file_run[of "[log_file \<mapsto> []]"
      "\<lparr>read_fails = False, rename_fails = False, write_fails = False, write_leftover = None\<rparr>"]
  by simp

text \<open>
  Claim C6 as stated fails: on the empty file the original and the final line count
  reported are 1, not 0.
\<close>

theorem empty_file_counts:
  "reported (dedupe_conversation_log
     \<lparr>read_fails = False, rename_fails = False, write_fails = False, write_leftover = None\<rparr>
     [log_file \<mapsto> []]) =
   Some \<lparr>original_lines = 1, final_lines = 1, removed_lines = 0, conversations_found = 0\<rparr> \<and>
   reported (dedupe_conversation_log
     \<lparr>read_fails = False, rename_fails = False, write_fails = False, write_leftover = None\<rparr>
     [log_file \<mapsto> []]) \<noteq>
   Some \<lparr>original_lines = 0, final_lines = 0, removed_lines = 0, conversations_found = 0\<rparr>"
proof -
  have "scan [[]] = initial_state\<lparr>filtered_lines := [[]]\<rparr>"
    by (simp add: scan_def loop_body_def chat_match_def startswith_def
                  append_unless_skipping_def initial_state_def)
  then show ?thesis
    by (simp add: dedupe_conversation_log_def read_text_def rename_def write_text_def
                  split_lines_def initial_state_def)
qed

subsection \<open>Lines that are not entry headers\<close>

text \<open>
  Claim C7. A line that does not match the header pattern (the scan is a total function:
  no line raises) leaves the seen set as it is, and when the scan is not skipping the line
  is appended to the output and stays there. When the scan is skipping, the line is
  appended only if it begins with \<open>## \<close>.
\<close>

theorem non_header_line_is_body:
  assumes "chat_match line = None"
  shows "seen_conversations (scan (pre @ [line])) = seen_conversations (scan pre) \<and>
         (\<not> skip_until_next (scan pre) \<longrightarrow>
            filtered_lines (scan (pre @ [line])) = filtered_lines (scan pre) @ [line] \<and>
            prefix (filtered_lines (scan pre) @ [line]) (dedupe_lines (pre @ line # rest))) \<and>
         (skip_until_next (scan pre) \<longrightarrow>
            filtered_lines (scan (pre @ [line])) =
              filtered_lines (scan pre) @ (if startswith line ''## '' then [line] else []))"
proof -
  from assms have k: "header_key line = None"
    by (simp add: header_key_def)
  have 1: "seen_conversations (scan (pre @ [line])) = seen_conversations (scan pre)"
    by (simp add: scan_snoc loop_body_seen k)
  have 2: "filtered_lines (scan (pre @ [line])) = filtered_lines (scan pre) @ [line]"
    if "\<not> skip_until_next (scan pre)"
    using that by (simp add: scan_snoc loop_body_filtered loop_body_skip k)
  have "prefix (filtered_lines (scan (pre @ [line]))) (dedupe_lines ((pre @ [line]) @ rest))"
    by (rule dedupe_lines_prefix)
  then have 3: "prefix (filtered_lines (scan pre) @ [line]) (dedupe_lines (pre @ line # rest))"
    if "\<not> skip_until_next (scan pre)"
    using 2[OF that] by simp
  have 4: "filtered_lines (scan (pre @ [line])) =
             filtered_lines (scan pre) @ (if startswith line ''## '' then [line] else [])"
    if "skip_until_next (scan pre)"
    using that by (simp add: scan_snoc loop_body_filtered loop_body_skip k)
  from 1 2 3 4 show ?thesis
    by blast
qed

text \<open>
  A header with a malformed identifier reached when the scan is not skipping, and a body
  line reached when it is.
\<close>

theorem non_header_line_is_body_witness:
  "chat_match ''## Chat zz - 2024-01-01 - Bad'' = None \<and>
   \<not> skip_until_next (scan [''## Chat a1 - 2024-01-01 - One'']) \<and>
   seen_conversations (scan ([''## Chat a1 - 2024-01-01 - One''] @ [''## Chat zz - 2024-01-01 - Bad''])) =
     seen_conversations (scan [''## Chat a1 - 2024-01-01 - One'']) \<and>
   filtered_lines (scan ([''## Chat a1 - 2024-01-01 - One''] @ [''## Chat zz - 2024-01-01 - Bad''])) =
     filtered_lines (scan [''## Chat a1 - 2024-01-01 - One'']) @ [''## Chat zz - 2024-01-01 - Bad''] \<and>
   chat_match ''y'' = None \<and>
   skip_until_next (scan [''## Chat a1 - 2024-01-01 - One'', ''## Chat a1 - 2024-01-01 - Two'']) \<and>
   filtered_lines (scan ([''## Chat a1 - 2024-01-01 - One'', ''## Chat a1 - 2024-01-01 - Two''] @ [''y''])) =
     filtered_lines (scan [''## Chat a1 - 2024-01-01 - One'', ''## Chat a1 - 2024-01-01 - Two'']) @
       (if startswith ''y'' ''## '' then [''y''] else [])"
proof -
  have h1: "chat_match ''## Chat zz - 2024-01-01 - Bad'' = None"
    and n1: "\<not> skip_until_next (scan [''## Chat a1 - 2024-01-01 - One''])"
    and h2: "chat_match ''y'' = None"
    and n2: "skip_until_next (scan [''## Chat a1 - 2024-01-01 - One'', ''## Chat a1 - 2024-01-01 - Two''])"
    by code_simp+
  from non_header_line_is_body[OF h1, of "[''## Chat a1 - 2024-01-01 - One'']" "[]"]
       non_header_line_is_body[OF h2, of "[''## Chat a1 - 2024-01-01 - One'', ''## Chat a1 - 2024-01-01 - Two'']" "[]"]
       h1 n1 h2 n2
  show ?thesis
    by blast
qed

subsection \<open>Backup before overwrite\<close>

text \<open>
  Claim C8. A run that has read the file first renames it to the backup path. When the
  rename fails the file system is left as it was and nothing is written. When it succeeds
  the backup path holds the original content as it was, the original path is free, and
  only then the filtered text is written to the original path; the backup keeps the
  original content whether or not that write fails.
\<close>

theorem backup_before_overwrite:
  assumes "fs log_file = Some raw" and "\<not> read_fails env"
  shows "let r = dedupe_conversation_log env fs;
             new = dedupe_content (universal_newlines raw);
             fs1 = fs(backup_file \<mapsto> raw, log_file := None)
         in if rename_fails env
            then fs_after r = fs \<and> performed r = [Rename log_file backup_file] \<and>
                 outcome r = Raised (OSError ''rename'')
            else rename env log_file backup_file fs = Inr fs1 \<and>
                 performed r = [Rename log_file backup_file, Write_text log_file new] \<and>
                 fs_after r = snd (write_text env log_file new fs1) \<and>
                 fs_after r backup_file = Some raw \<and>
                 (\<not> write_fails env \<longrightarrow> fs_after r log_file = Some new)"
  using assms paths_differ
  by (auto simp: dedupe_conversation_log_def read_text_def rename_def write_text_def
                 dedupe_content_def dedupe_lines_def Let_def)

text \<open>A run whose rename fails and a run with no failure, on a file of one line.\<close>

theorem backup_before_overwrite_witness:
  "[log_file \<mapsto> ''## Notes''] log_file = Some ''## Notes'' \<and>
   fs_after (dedupe_conversation_log
     \<lparr>read_fails = False, rename_fails = True, write_fails = False, write_leftover = None\<rparr>
     [log_file \<mapsto> ''## Notes'']) = [log_file \<mapsto> ''## Notes''] \<and>
   performed (dedupe_conversation_log
     \<lparr>read_fails = False, rename_fails = True, write_fails = False, write_leftover = None\<rparr>
     [log_file \<mapsto> ''## Notes'']) = [Rename log_file backup_file] \<and>
   performed (dedupe_conversation_log
     \<lparr>read_fails = False, rename_fails = False, write_fails = False, write_leftover = None\<rparr>
     [log_file \<mapsto> ''## Notes'']) =
     [Rename log_file backup_file,
      Write_text log_file (dedupe_content (universal_newlines ''## Notes''))] \<and>
   fs_after (dedupe_conversation_log
     \<lparr>read_fails = False, rename_fails = False, write_fails = False, write_leftover = None\<rparr>
     [log_file \<mapsto> ''## Notes'']) backup_file = Some ''## Notes'' \<and>
   fs_after (dedupe_conversation_log
     \<lparr>read_fails = False, rename_fails = False, write_fails = False, write_leftover = None\<rparr>
     [log_file \<mapsto> ''## Notes'']) log_file = Some (dedupe_content (universal_newlines ''## Notes'')) \<and>
   dedupe_content (universal_newlines ''## Notes'') = ''## Notes''"
proof -
  have e: "dedupe_content (universal_newlines ''## Notes'') = ''## Notes''"
    by code_simp
  from backup_before_overwrite[of "[log_file \<mapsto> ''## Notes'']" "''## Notes''"
      "\<lparr>read_fails = False, rename_fails = True, write_fails = False, write_leftover = None\<rparr>"]
    backup_before_overwrite[of "[log_file \<mapsto> ''## Notes'']" "''## Notes''"
      "\<lparr>read_fails = False, rename_fails = False, write_fails = False, write_leftover = None\<rparr>"]
    e
  show ?thesis
    using paths_differ by (simp add: Let_def write_text_def)
qed

section \<open>Properties of the analyzer\<close>

subsection \<open>The division by the estimated size\<close>

lemma overall_no_tokens:
  assumes "total_size t > 0" and "total_tokens t = 0"
  shows "overall t = Inl ZeroDivisionError"
  using assms by (simp add: overall_def truediv_def)

text \<open>
  Claim C9. The branch \<open>if total_size > 0\<close> divides by
  \<open>estimated_json_size = total_tokens * 15\<close> with no guard. A file of three hyphens
  has size 3 and no token: the branch is taken and the division raises
  \<open>ZeroDivisionError\<close>.
\<close>

theorem main_zero_division:
  "main [''./.aicf/index.aicf'' \<mapsto> ''---''] = Inl ZeroDivisionError"
  by code_simp

subsection \<open>\<open>count_tokens\<close>\<close>

lemma space_not_word: "is_space c \<Longrightarrow> \<not> is_word c"
  by (auto simp: is_space_def is_word_def is_ascii_word_def in_range_def)

lemma is_separator_iff: "is_separator c = (\<not> is_word c)"
  using space_not_word by (auto simp: is_separator_def)

lemma ascii_word: "is_ascii c \<Longrightarrow> is_word c = is_ascii_word c"
  by (auto simp: is_ascii_def is_word_def in_range_def)

lemma count_runs_Cons:
  "count_runs P (c # cs) =
     (if P c \<and> (cs = [] \<or> \<not> P (hd cs)) then 1 else 0) + count_runs P cs"
  by (cases cs) auto

lemma count_runs_dropWhile:
  assumes "\<And>c. Q c \<Longrightarrow> \<not> P c"
  shows "count_runs P (dropWhile Q cs) = count_runs P cs"
  using assms by (induction cs) (auto simp: count_runs_Cons)

lemma count_runs_cong:
  "\<forall>c \<in> set s. P c = Q c \<Longrightarrow> count_runs P s = count_runs Q s"
  by (induction P s rule: count_runs.induct) auto

lemma re_split_acc_count:
  "length (filter (\<lambda>word. word \<noteq> []) (re_split_acc cur s)) =
     count_runs is_word s +
     (if cur \<noteq> [] \<and> (s = [] \<or> \<not> is_word (hd s)) then 1 else 0)"
proof (induction cur s rule: re_split_acc.induct)
  case (1 cur)
  show ?case by simp
next
  case (2 cur c cs)
  show ?case
  proof (cases "is_separator c")
    case True
    then have w: "\<not> is_word c"
      by (simp add: is_separator_iff)
    have "count_runs is_word (dropWhile is_separator cs) = count_runs is_word cs"
      by (rule count_runs_dropWhile) (simp add: is_separator_iff)
    with 2(1)[OF True] True w show ?thesis
      by (simp add: count_runs_Cons)
  next
    case False
    then have w: "is_word c"
      by (simp add: is_separator_iff)
    with 2(2)[OF False] False show ?thesis
      by (simp add: count_runs_Cons)
  qed
qed

lemma re_sub_spaces_head:
  "(re_sub_spaces s = [] \<or> \<not> is_word (hd (re_sub_spaces s))) = (s = [] \<or> \<not> is_word (hd s))"
proof (cases s)
  case Nil
  then show ?thesis by simp
next
  case (Cons c cs)
  have "\<not> is_word (CHR '' '')"
    by (simp add: is_word_def is_ascii_word_def in_range_def code_def)
  with Cons space_not_word[of c] show ?thesis
    by auto
qed

lemma re_sub_spaces_count:
  "count_runs is_word (re_sub_spaces s) = count_runs is_word s"
proof (induction s rule: re_sub_spaces.induct)
  case 1
  show ?case by simp
next
  case (2 c cs)
  show ?case
  proof (cases "is_space c")
    case True
    have sp: "\<not> is_word (CHR '' '')"
      by (simp add: is_word_def is_ascii_word_def in_range_def code_def)
    have "count_runs is_word (dropWhile is_space cs) = count_runs is_word cs"
      by (rule count_runs_dropWhile) (rule space_not_word)
    with 2(1)[OF True] True sp space_not_word[OF True] show ?thesis
      by (simp add: count_runs_Cons)
  next
    case False
    with 2(2)[OF False] re_sub_spaces_head[of cs] show ?thesis
      by (simp add: count_runs_Cons)
  qed
qed

lemma count_tokens_runs: "count_tokens s = count_runs is_word s"
  by (simp add: count_tokens_def re_split_def re_split_acc_count re_sub_spaces_count)

text \<open>
  Claim C10, as the code has it. \<open>count_tokens\<close> returns the number of maximal runs of
  word characters in the sense of \<open>\<bsol>w\<close> for \<open>str\<close> patterns (the alphanumeric
  characters of Unicode and the underscore); it returns 0 for the empty string; the
  substitution that collapses white space does not change the count; and on a string of
  ASCII characters the count is the number of maximal runs of \<open>[A-Za-z0-9_]\<close>.
\<close>

theorem count_tokens_word_runs:
  "count_tokens s = count_runs is_word s \<and>
   count_tokens [] = 0 \<and>
   count_tokens s = length (filter (\<lambda>word. word \<noteq> []) (re_split s)) \<and>
   (list_all is_ascii s \<longrightarrow> count_tokens s = count_runs is_ascii_word s)"
proof (intro conjI impI)
  show "count_tokens s = count_runs is_word s"
    by (rule count_tokens_runs)
  show "count_tokens [] = 0"
    by (simp add: count_tokens_runs)
  show "count_tokens s = length (filter (\<lambda>word. word \<noteq> []) (re_split s))"
    by (simp add: count_tokens_runs re_split_def re_split_acc_count)
  assume "list_all is_ascii s"
  then have "count_runs is_word s = count_runs is_ascii_word s"
    by (intro count_runs_cong) (simp add: list_all_iff ascii_word)
  then show "count_tokens s = count_runs is_ascii_word s"
    by (simp add: count_tokens_runs)
qed

theorem count_tokens_word_runs_witness:
  "count_tokens ''a_1, b'' = count_runs is_word ''a_1, b'' \<and>
   list_all is_ascii ''a_1, b'' \<and> count_tokens ''a_1, b'' = count_runs is_ascii_word ''a_1, b'' \<and> count_tokens ''a_1, b'' = 2"
  using count_tokens_word_runs[of "''a_1, b''"] by code_simp

text \<open>
  Claim C10 as stated fails on a letter outside ASCII: the string of the one character
  U+00E9 is one token and holds no run of \<open>[A-Za-z0-9_]\<close>.
\<close>

theorem count_tokens_counterexample:
  "count_tokens [CHR 0xE9] = 1 \<and> count_runs is_ascii_word [CHR 0xE9] = 0"
  by code_simp

end
